theory Spec2Isabelle
  imports Complex_Main
begin

section \<open>Commands (followme/commands.py)\<close>

text \<open>
  \<^verbatim>\<open>class Command(IntEnum)\<close> with the two members \<^verbatim>\<open>CIRCLE_MOTION = 1\<close> and
  \<^verbatim>\<open>TAKE_PHOTO = 2\<close>.
\<close>

datatype Command = CIRCLE_MOTION | TAKE_PHOTO

fun Command_value :: "Command \<Rightarrow> int" where
  "Command_value CIRCLE_MOTION = 1"
| "Command_value TAKE_PHOTO = 2"

text \<open>
  \<^verbatim>\<open>Command.from_snap_count\<close>: \<^verbatim>\<open>cls(count)\<close> looks the integer up among the member
  values and raises \<^verbatim>\<open>ValueError\<close> for any other; the handler turns that into \<^verbatim>\<open>None\<close>
  (after a warning in the log, which the model leaves out).
\<close>

definition from_snap_count :: "int \<Rightarrow> Command option" where
  "from_snap_count count =
     (if count = Command_value CIRCLE_MOTION then Some CIRCLE_MOTION
      else if count = Command_value TAKE_PHOTO then Some TAKE_PHOTO
      else None)"

section \<open>The command channel (followme/ipc.py)\<close>

text \<open>
  Exceptions of the Python runtime that the channel's code meets: the three that
  \<^verbatim>\<open>read_new_commands\<close> catches, and \<^verbatim>\<open>ValueError\<close>, which it does not
  (\<^verbatim>\<open>pickle.load\<close> raises it, among others, on some malformed input, and
  \<^verbatim>\<open>Path.with_suffix\<close> raises it on a path with an empty name).
\<close>

datatype py_exception = FileNotFoundError | UnpicklingError | EOFError | ValueError

text \<open>
  A file is identified with what \<^verbatim>\<open>pickle.load\<close> makes of its bytes: the list that
  \<^verbatim>\<open>pickle.dump\<close> wrote there, or the exception that loading it raises. The file
  system maps a path to its file, \<open>None\<close> where there is no file.
\<close>

datatype file_contents = Pickled "int list" | Unloadable py_exception

type_synonym filesystem = "string \<rightharpoonup> file_contents"

record CommandChannel =
  cache_path :: string
  read_index :: nat

text \<open>\<^verbatim>\<open>CommandChannel.__init__\<close>: the cursor starts at 0.\<close>

definition CommandChannel_init :: "string \<Rightarrow> CommandChannel" where
  "CommandChannel_init cache_file = \<lparr>cache_path = cache_file, read_index = 0\<rparr>"

text \<open>
  \<^verbatim>\<open>Path.name\<close>, \<^verbatim>\<open>Path.suffix\<close> and \<^verbatim>\<open>Path.with_suffix\<close> of pathlib on a normalised
  POSIX path: the name is the last component, the suffix starts at the last dot of the
  name unless that dot is the name's first or last character, and \<^verbatim>\<open>with_suffix\<close>
  replaces the suffix, raising \<^verbatim>\<open>ValueError\<close> when the name is empty.
\<close>

definition path_name :: "string \<Rightarrow> string" where
  "path_name p = rev (takeWhile (\<lambda>c. c \<noteq> CHR ''/'') (rev p))"

definition path_suffix :: "string \<Rightarrow> string" where
  "path_suffix p =
     (let name = path_name p;
          after = takeWhile (\<lambda>c. c \<noteq> CHR ''.'') (rev name)
      in if CHR ''.'' \<in> set name \<and> after \<noteq> [] \<and> Suc (length after) < length name
         then drop (length name - Suc (length after)) name
         else [])"

definition with_suffix :: "string \<Rightarrow> string \<Rightarrow> py_exception + string" where
  "with_suffix p suffix =
     (if CHR ''/'' \<in> set suffix then Inl ValueError
      else if (suffix \<noteq> [] \<and> hd suffix \<noteq> CHR ''.'') \<or> suffix = ''.'' then Inl ValueError
      else if path_name p = [] then Inl ValueError
      else Inr (take (length p - length (path_suffix p)) p @ suffix))"

text \<open>
  \<^verbatim>\<open>_write_atomic\<close>: dump the list to the temporary path, then \<^verbatim>\<open>os.replace\<close> it over
  the cache path (the temporary name is gone afterwards).
\<close>

definition os_replace :: "string \<Rightarrow> string \<Rightarrow> filesystem \<Rightarrow> filesystem" where
  "os_replace src dst fs = (if src = dst then fs else (fs(dst := fs src))(src := None))"

definition write_atomic :: "CommandChannel \<Rightarrow> int list \<Rightarrow> filesystem \<Rightarrow> py_exception + filesystem" where
  "write_atomic ch data fs =
     (case with_suffix (cache_path ch) ''.pkl.tmp'' of
        Inl e \<Rightarrow> Inl e
      | Inr tmp_path \<Rightarrow> Inr (os_replace tmp_path (cache_path ch) (fs(tmp_path \<mapsto> Pickled data))))"

definition initialize :: "CommandChannel \<Rightarrow> filesystem \<Rightarrow> py_exception + filesystem" where
  "initialize ch fs = write_atomic ch [] fs"

definition write_commands :: "CommandChannel \<Rightarrow> int list \<Rightarrow> filesystem \<Rightarrow> py_exception + filesystem" where
  "write_commands ch commands fs = write_atomic ch commands fs"

text \<open>\<^verbatim>\<open>open(path, "rb")\<close> followed by \<^verbatim>\<open>pickle.load\<close>.\<close>

definition open_and_load :: "filesystem \<Rightarrow> string \<Rightarrow> py_exception + int list" where
  "open_and_load fs p =
     (case fs p of
        None \<Rightarrow> Inl FileNotFoundError
      | Some (Pickled xs) \<Rightarrow> Inr xs
      | Some (Unloadable e) \<Rightarrow> Inl e)"

text \<open>
  The \<^verbatim>\<open>while\<close> loop of \<^verbatim>\<open>read_new_commands\<close>, on the cursor and the list built so
  far: an element is appended only when \<^verbatim>\<open>cmd is not None\<close>.
\<close>

function read_loop :: "int list \<Rightarrow> nat \<Rightarrow> Command list \<Rightarrow> nat \<times> Command list" where
  "read_loop all_snaps idx new_commands =
     (if idx < length all_snaps then
        (let snap_count = all_snaps ! idx;
             idx' = idx + 1
         in case from_snap_count snap_count of
              Some cmd \<Rightarrow> read_loop all_snaps idx' (new_commands @ [cmd])
            | None \<Rightarrow> read_loop all_snaps idx' new_commands)
      else (idx, new_commands))"
  by pat_completeness auto
termination
  by (relation "measure (\<lambda>(all_snaps, idx, new_commands). length all_snaps - idx)") auto

declare read_loop.simps [simp del]

text \<open>
  \<^verbatim>\<open>read_new_commands\<close>: \<^verbatim>\<open>FileNotFoundError\<close>, \<^verbatim>\<open>pickle.UnpicklingError\<close> and
  \<^verbatim>\<open>EOFError\<close> are caught and give the empty list with the channel untouched; any
  other exception leaves the function (\<open>Inl\<close>).
\<close>

definition read_new_commands ::
  "CommandChannel \<Rightarrow> filesystem \<Rightarrow> py_exception + (Command list \<times> CommandChannel)" where
  "read_new_commands ch fs =
     (case open_and_load fs (cache_path ch) of
        Inl e \<Rightarrow>
          (if e = FileNotFoundError then Inr ([], ch)
           else if e = UnpicklingError \<or> e = EOFError then Inr ([], ch)
           else Inl e)
      | Inr all_snaps \<Rightarrow>
          (case read_loop all_snaps (read_index ch) [] of
             (idx, new_commands) \<Rightarrow> Inr (new_commands, ch\<lparr>read_index := idx\<rparr>)))"

section \<open>The snap detector (followme/gesture.py)\<close>

text \<open>
  \<^verbatim>\<open>SnapDetector\<close>: the two configuration values copied by \<^verbatim>\<open>__init__\<close> and the three
  state attributes. Python floats (the time window and the readings of \<^verbatim>\<open>time.time()\<close>)
  are idealised as real numbers; the clock reading is an argument of each call.
\<close>

record SnapDetector =
  threshold :: int
  time_window :: real
  valid :: bool
  snap_count :: int
  prev_snap_time :: "real option"

definition SnapDetector_init :: "int \<Rightarrow> real \<Rightarrow> SnapDetector" where
  "SnapDetector_init snap_threshold snap_time_window =
     \<lparr>threshold = snap_threshold, time_window = snap_time_window,
      valid = True, snap_count = 0, prev_snap_time = None\<rparr>"

text \<open>\<^verbatim>\<open>_detect_edge\<close>: the result and the detector with its gate updated.\<close>

definition detect_edge :: "SnapDetector \<Rightarrow> int \<Rightarrow> bool \<times> SnapDetector" where
  "detect_edge self diff =
     (if diff > threshold self \<and> valid self then (True, self\<lparr>valid := False\<rparr>)
      else if diff < threshold self \<and> \<not> valid self then (False, self\<lparr>valid := True\<rparr>)
      else (False, self))"

text \<open>\<^verbatim>\<open>process_reading\<close>, with \<open>now\<close> the value of \<^verbatim>\<open>time.time()\<close> in this call.\<close>

definition process_reading ::
  "SnapDetector \<Rightarrow> int \<Rightarrow> int \<Rightarrow> real \<Rightarrow> int option \<times> SnapDetector" where
  "process_reading self sensor1 sensor2 now =
     (let diff = sensor2 - sensor1 in
      case detect_edge self diff of (is_snap, self1) \<Rightarrow>
        if is_snap then
          (if snap_count self1 = 0
           then (None, self1\<lparr>snap_count := 1, prev_snap_time := Some now\<rparr>)
           else (None, self1\<lparr>snap_count := snap_count self1 + 1, prev_snap_time := Some now\<rparr>))
        else
          (case prev_snap_time self1 of
             Some prev \<Rightarrow>
               if snap_count self1 > 0 \<and> now - prev > time_window self1
               then (Some (snap_count self1), self1\<lparr>snap_count := 0, prev_snap_time := None\<rparr>)
               else (None, self1)
           | None \<Rightarrow> (None, self1)))"

definition SnapDetector_reset :: "SnapDetector \<Rightarrow> SnapDetector" where
  "SnapDetector_reset self = self\<lparr>valid := True, snap_count := 0, prev_snap_time := None\<rparr>"

text \<open>
  A reading is the sensor pair with the clock value of the call that processes it.
  \<open>detect_edges\<close> and \<open>process_readings\<close> make the calls one after the other, as the
  loop of \<^verbatim>\<open>run_gesture.main\<close> does, and collect the results.
\<close>

type_synonym reading = "int \<times> int \<times> real"

definition reading_diff :: "reading \<Rightarrow> int" where
  "reading_diff r = (case r of (sensor1, sensor2, now) \<Rightarrow> sensor2 - sensor1)"

definition reading_time :: "reading \<Rightarrow> real" where
  "reading_time r = (case r of (sensor1, sensor2, now) \<Rightarrow> now)"

fun detect_edges :: "SnapDetector \<Rightarrow> int list \<Rightarrow> bool list \<times> SnapDetector" where
  "detect_edges self [] = ([], self)"
| "detect_edges self (diff # ds) =
     (case detect_edge self diff of (is_snap, self1) \<Rightarrow>
        case detect_edges self1 ds of (rest, self2) \<Rightarrow> (is_snap # rest, self2))"

fun process_readings :: "SnapDetector \<Rightarrow> reading list \<Rightarrow> int option list \<times> SnapDetector" where
  "process_readings self [] = ([], self)"
| "process_readings self (r # rs) =
     (case r of (sensor1, sensor2, now) \<Rightarrow>
        case process_reading self sensor1 sensor2 now of (out, self1) \<Rightarrow>
          case process_readings self1 rs of (rest, self2) \<Rightarrow> (out # rest, self2))"

text \<open>
  A burst as a list of pulses: each pulse is one spike reading followed by the quiet
  readings up to the next spike (or up to the end of the sequence).
\<close>

type_synonym pulse = "reading \<times> reading list"

definition pulse_readings :: "pulse list \<Rightarrow> reading list" where
  "pulse_readings ps = concat (map (\<lambda>(spike, quiet). spike # quiet) ps)"

section \<open>The PID controller (followme/pid.py)\<close>

text \<open>
  Floats are idealised as real numbers. \<open>now\<close> is the value of \<^verbatim>\<open>time.monotonic()\<close>
  in the call.
\<close>

record PIDConfig =
  kp :: real
  ki :: real
  kd :: real

record PIDController =
  config :: PIDConfig
  output_limits :: "real \<times> real"
  integral_limit :: "real option"
  integral :: real
  prev_error :: "real option"
  last_time :: "real option"

definition PIDController_init :: "PIDConfig \<Rightarrow> real \<times> real \<Rightarrow> real option \<Rightarrow> PIDController" where
  "PIDController_init cfg limits ilimit =
     \<lparr>config = cfg, output_limits = limits, integral_limit = ilimit,
      integral = 0, prev_error = None, last_time = None\<rparr>"

text \<open>The time step of a call: the argument, or the time since the last call (0 at the first).\<close>

definition effective_dt :: "PIDController \<Rightarrow> real option \<Rightarrow> real \<Rightarrow> real" where
  "effective_dt self dt now =
     (case dt of
        Some d \<Rightarrow> d
      | None \<Rightarrow> (case last_time self of Some t \<Rightarrow> now - t | None \<Rightarrow> 0))"

definition update :: "PIDController \<Rightarrow> real \<Rightarrow> real option \<Rightarrow> real \<Rightarrow> real \<times> PIDController" where
  "update self error dt_arg now =
     (let dt = effective_dt self dt_arg now;
          p_term = kp (config self) * error;
          integral1 = integral self + error * dt;
          integral2 = (case integral_limit self of
                         Some l \<Rightarrow> max (- l) (min l integral1)
                       | None \<Rightarrow> integral1);
          i_term = ki (config self) * integral2;
          d_term = (case prev_error self of
                      Some prev \<Rightarrow> if dt > 0 then kd (config self) * (error - prev) / dt else 0
                    | None \<Rightarrow> 0);
          output = p_term + i_term + d_term
      in case output_limits self of (lo, hi) \<Rightarrow>
           (max lo (min hi output),
            self\<lparr>integral := integral2, prev_error := Some error, last_time := Some now\<rparr>))"

definition PID_reset :: "PIDController \<Rightarrow> PIDController" where
  "PID_reset self = self\<lparr>integral := 0, prev_error := None, last_time := None\<rparr>"

text \<open>
  A call of \<^verbatim>\<open>update\<close> is its error, its optional \<^verbatim>\<open>dt\<close> and the clock value;
  \<open>updates\<close> makes the calls in order and returns the controller after each.
\<close>

type_synonym pid_call = "real \<times> real option \<times> real"

definition call_error :: "pid_call \<Rightarrow> real" where
  "call_error c = (case c of (error, dt, now) \<Rightarrow> error)"

definition call_dt :: "pid_call \<Rightarrow> real option" where
  "call_dt c = (case c of (error, dt, now) \<Rightarrow> dt)"

definition call_now :: "pid_call \<Rightarrow> real" where
  "call_now c = (case c of (error, dt, now) \<Rightarrow> now)"

fun updates :: "PIDController \<Rightarrow> pid_call list \<Rightarrow> PIDController list" where
  "updates self [] = []"
| "updates self (c # cs) =
     (let self1 = snd (update self (call_error c) (call_dt c) (call_now c))
      in self1 # updates self1 cs)"

text \<open>
  The invariant of the accumulator under errors of one sign (\<open>up\<close>: non-negative errors):
  it stays within the limit and on the side of the errors. A negative
  \<^verbatim>\<open>integral_limit\<close> \<open>l\<close> pins the accumulator at \<open>- l\<close>, whatever the errors.
\<close>

definition agrees :: "bool \<Rightarrow> real option \<Rightarrow> real \<Rightarrow> bool" where
  "agrees up L i \<longleftrightarrow>
     (case L of
        None \<Rightarrow> (if up then 0 \<le> i else i \<le> 0)
      | Some l \<Rightarrow> \<bar>i\<bar> \<le> \<bar>l\<bar> \<and> (if up then 0 \<le> i else i \<le> 0 \<or> (l < 0 \<and> i = - l)))"

section \<open>The face tracker (followme/drone_controller.py)\<close>

text \<open>The configuration dataclasses of followme/config.py that the tracker reads.\<close>

record DroneConfig =
  frame_width :: int
  frame_height :: int
  height_limit :: int
  takeoff_ascent_speed :: int
  takeoff_ascent_duration :: real

record TrackingConfig =
  pid :: PIDConfig
  face_area_min :: int
  face_area_max :: int
  yaw_speed_limit :: int
  vertical_speed_limit :: int
  vertical_speed_scale :: real
  forward_speed :: int
  backward_speed :: int
  target_x_fraction :: real
  target_y_fraction :: real
  lost_face_threshold :: int
  search_rotation_speed :: int
  loop_interval :: real

definition PIDConfig_default :: PIDConfig where
  "PIDConfig_default = \<lparr>kp = 0.2, ki = 0.04, kd = 0.005\<rparr>"

definition DroneConfig_default :: DroneConfig where
  "DroneConfig_default =
     \<lparr>frame_width = 960, frame_height = 720, height_limit = 220,
      takeoff_ascent_speed = 25, takeoff_ascent_duration = 3\<rparr>"

definition TrackingConfig_default :: TrackingConfig where
  "TrackingConfig_default =
     \<lparr>pid = PIDConfig_default, face_area_min = 14000, face_area_max = 15000,
      yaw_speed_limit = 100, vertical_speed_limit = 40, vertical_speed_scale = 0.5,
      forward_speed = 20, backward_speed = - 20,
      target_x_fraction = 0.5, target_y_fraction = 0.25,
      lost_face_threshold = 15, search_rotation_speed = 40, loop_interval = 0.1\<rparr>"

text \<open>\<^verbatim>\<open>FaceInfo\<close> of followme/face_detector.py.\<close>

record FaceInfo =
  center_x :: int
  center_y :: int
  area :: int
  bbox :: "int \<times> int \<times> int \<times> int"

text \<open>
  \<^verbatim>\<open>collections.deque(maxlen=n)\<close>: the constructor raises \<^verbatim>\<open>ValueError\<close> on a negative
  \<open>n\<close>; \<^verbatim>\<open>append\<close> on a full deque drops the element at the left end (and a deque of
  capacity 0 stays empty).
\<close>

record 'a deque =
  items :: "'a list"
  maxlen :: nat

definition deque_init :: "int \<Rightarrow> py_exception + 'a deque" where
  "deque_init n = (if n < 0 then Inl ValueError else Inr \<lparr>items = [], maxlen = nat n\<rparr>)"

definition deque_append :: "'a deque \<Rightarrow> 'a \<Rightarrow> 'a deque" where
  "deque_append d x =
     (let xs = items d @ [x]
      in if length xs > maxlen d then d\<lparr>items := tl xs\<rparr> else d\<lparr>items := xs\<rparr>)"

definition deque_clear :: "'a deque \<Rightarrow> 'a deque" where
  "deque_clear d = d\<lparr>items := []\<rparr>"

text \<open>
  \<^verbatim>\<open>int(x)\<close> on a float truncates towards zero; \<^verbatim>\<open>np.clip(a, lo, hi)\<close> is
  \<^verbatim>\<open>minimum(hi, maximum(a, lo))\<close>; \<^verbatim>\<open>xs[i:]\<close> counts a negative \<open>i\<close> from the end.
\<close>

definition py_int :: "real \<Rightarrow> int" where
  "py_int x = (if x \<ge> 0 then \<lfloor>x\<rfloor> else \<lceil>x\<rceil>)"

definition np_clip :: "real \<Rightarrow> real \<Rightarrow> real \<Rightarrow> real" where
  "np_clip a lo hi = min hi (max a lo)"

definition slice_from :: "'a list \<Rightarrow> int \<Rightarrow> 'a list" where
  "slice_from xs i =
     (if i < 0 then drop (nat (int (length xs) + i)) xs else drop (nat i) xs)"

type_synonym rc_control = "int \<times> int \<times> int \<times> int"

record FaceTracker =
  tracker_config :: TrackingConfig
  frame_w :: int
  frame_h :: int
  target_x :: int
  target_y :: int
  yaw_pid :: PIDController
  vertical_pid :: PIDController
  center_history :: "(int \<times> int) deque"
  center_history_size :: int
  last_known_direction :: string

text \<open>\<^verbatim>\<open>FaceTracker.__init__\<close>; it fails where the deque's constructor does.\<close>

definition FaceTracker_init :: "TrackingConfig \<Rightarrow> DroneConfig \<Rightarrow> py_exception + FaceTracker" where
  "FaceTracker_init cfg drone_config =
     (case deque_init (frame_width drone_config) of
        Inl e \<Rightarrow> Inl e
      | Inr history \<Rightarrow>
          Inr \<lparr>tracker_config = cfg,
               frame_w = frame_width drone_config,
               frame_h = frame_height drone_config,
               target_x = py_int (real_of_int (frame_width drone_config) * target_x_fraction cfg),
               target_y = py_int (real_of_int (frame_height drone_config) * target_y_fraction cfg),
               yaw_pid = PIDController_init (pid cfg)
                           (- real_of_int (yaw_speed_limit cfg), real_of_int (yaw_speed_limit cfg)) None,
               vertical_pid = PIDController_init (pid cfg)
                           (- real_of_int (vertical_speed_limit cfg),
                            real_of_int (vertical_speed_limit cfg)) None,
               center_history = history,
               center_history_size = 20,
               last_known_direction = ''+''\<rparr>)"

definition compute_forward_back :: "FaceTracker \<Rightarrow> int \<Rightarrow> int" where
  "compute_forward_back self a =
     (if face_area_min (tracker_config self) \<le> a \<and> a \<le> face_area_max (tracker_config self) then 0
      else if a > face_area_max (tracker_config self) then backward_speed (tracker_config self)
      else if a > 0 then forward_speed (tracker_config self)
      else 0)"

definition handle_lost_face :: "FaceTracker \<Rightarrow> rc_control \<times> FaceTracker" where
  "handle_lost_face self =
     (let self1 = self\<lparr>center_history := deque_append (center_history self) (0, 0)\<rparr>;
          recent = slice_from (items (center_history self1)) (- center_history_size self1);
          lost_count = int (length (filter (\<lambda>(x, y). x = 0 \<and> y = 0) recent))
      in if lost_count > lost_face_threshold (tracker_config self1) then
           (let speed = search_rotation_speed (tracker_config self1);
                yaw = (if last_known_direction self1 = ''+'' then speed else - speed)
            in ((0, 0, 0, yaw), self1))
         else ((0, 0, 0, 0), self1))"

text \<open>
  \<^verbatim>\<open>compute_control\<close>. \<open>drone_height\<close> is what \<^verbatim>\<open>drone.get_height()\<close> returns in
  the call; the branch of the height check is \<^verbatim>\<open>pass\<close>, so it leaves the tracker as
  it is. \<open>now_yaw\<close> and \<open>now_vertical\<close> are the clock values of the two \<^verbatim>\<open>update\<close>
  calls.
\<close>

definition compute_control ::
  "FaceTracker \<Rightarrow> FaceInfo option \<Rightarrow> int \<Rightarrow> real \<Rightarrow> real \<Rightarrow> rc_control \<times> FaceTracker" where
  "compute_control self0 face drone_height now_yaw now_vertical =
     (let self = (if drone_height > face_area_max (tracker_config self0) then self0 else self0)
      in case face of
        None \<Rightarrow> handle_lost_face self
      | Some f \<Rightarrow>
          (let self1 = (if center_x f < frame_w self div 2
                        then self\<lparr>last_known_direction := ''-''\<rparr>
                        else self\<lparr>last_known_direction := ''+''\<rparr>);
               self2 = self1\<lparr>center_history :=
                          deque_append (center_history self1) (center_x f, center_y f)\<rparr>;
               x_error = center_x f - target_x self2;
               y_error = center_y f - target_y self2
           in case update (yaw_pid self2) (real_of_int x_error) None now_yaw of
                (yaw_out, yaw_pid') \<Rightarrow>
              case update (vertical_pid self2) (real_of_int y_error) None now_vertical of
                (vertical_raw, vertical_pid') \<Rightarrow>
                  (let yaw_speed = py_int yaw_out;
                       y_speed = py_int (np_clip
                                   (- vertical_speed_scale (tracker_config self2) * vertical_raw)
                                   (- real_of_int (vertical_speed_limit (tracker_config self2)))
                                   (real_of_int (vertical_speed_limit (tracker_config self2))));
                       fb = compute_forward_back self2 (area f)
                   in ((0, fb, y_speed, yaw_speed),
                       self2\<lparr>yaw_pid := yaw_pid', vertical_pid := vertical_pid'\<rparr>))))"

definition reset :: "FaceTracker \<Rightarrow> FaceTracker" where
  "reset self =
     self\<lparr>yaw_pid := PID_reset (yaw_pid self),
          vertical_pid := PID_reset (vertical_pid self),
          center_history := deque_clear (center_history self)\<rparr>"

text \<open>
  The control part of one iteration of the loop in \<^verbatim>\<open>run_tracker.main\<close>: the command
  that \<^verbatim>\<open>drone.send_control\<close> receives, given the tracker's answer and the height that
  the loop's own \<^verbatim>\<open>drone.get_height()\<close> returns.
\<close>

definition main_send_control :: "DroneConfig \<Rightarrow> int \<Rightarrow> rc_control \<Rightarrow> rc_control" where
  "main_send_control drone_config drone_height control =
     (if drone_height > height_limit drone_config then (0, 0, - 10, 0) else control)"

text \<open>
  The inputs of one \<^verbatim>\<open>compute_control\<close> call: the detector's answer, the height and
  the two clock values. \<open>compute_controls\<close> makes the calls in order; \<open>lost_frames n\<close>
  makes \<open>n\<close> calls without a face.
\<close>

type_synonym cycle_input = "FaceInfo option \<times> int \<times> real \<times> real"

fun compute_controls :: "FaceTracker \<Rightarrow> cycle_input list \<Rightarrow> rc_control list \<times> FaceTracker" where
  "compute_controls self [] = ([], self)"
| "compute_controls self (i # inputs) =
     (case i of (face, drone_height, now_yaw, now_vertical) \<Rightarrow>
        case compute_control self face drone_height now_yaw now_vertical of (out, self1) \<Rightarrow>
          case compute_controls self1 inputs of (rest, self2) \<Rightarrow> (out # rest, self2))"

definition face_of :: "cycle_input \<Rightarrow> FaceInfo option" where
  "face_of i = (case i of (face, drone_height, now_yaw, now_vertical) \<Rightarrow> face)"

section \<open>The command channel: what a read returns\<close>

text \<open>
  The loop reads every element from the cursor to the end of the list, keeps the
  recognised commands in order and leaves the cursor at the end of the list.
\<close>

lemma read_loop_eq:
  "read_loop all_snaps idx acc =
     (max idx (length all_snaps), acc @ List.map_filter from_snap_count (drop idx all_snaps))"
proof (induction all_snaps idx acc rule: read_loop.induct)
  case (1 all_snaps idx new_commands)
  show ?case
  proof (cases "idx < length all_snaps")
    case False
    then show ?thesis by (simp add: read_loop.simps [of all_snaps idx])
  next
    case True
    then have d: "drop idx all_snaps = all_snaps ! idx # drop (Suc idx) all_snaps"
      by (simp add: Cons_nth_drop_Suc)
    show ?thesis
    proof (cases "from_snap_count (all_snaps ! idx)")
      case None
      with True "1.IH"(1) [OF True refl refl None] show ?thesis
        by (simp add: read_loop.simps [of all_snaps idx] d max_def)
    next
      case (Some cmd)
      with True "1.IH"(2) [OF True refl refl Some] show ?thesis
        by (simp add: read_loop.simps [of all_snaps idx] d max_def)
    qed
  qed
qed

lemma read_new_commands_loaded:
  "fs (cache_path ch) = Some (Pickled S) \<Longrightarrow>
   read_new_commands ch fs =
     Inr (List.map_filter from_snap_count (drop (read_index ch) S),
          ch\<lparr>read_index := max (read_index ch) (length S)\<rparr>)"
  by (simp add: read_new_commands_def open_and_load_def read_loop_eq)

lemma read_new_commands_caught:
  "fs (cache_path ch) = None \<or> fs (cache_path ch) = Some (Unloadable UnpicklingError)
     \<or> fs (cache_path ch) = Some (Unloadable EOFError) \<Longrightarrow>
   read_new_commands ch fs = Inr ([], ch)"
  by (auto simp: read_new_commands_def open_and_load_def)

lemma with_suffix_default: "with_suffix ''cache.pkl'' ''.pkl.tmp'' = Inr ''cache.pkl.tmp''"
  by (simp add: with_suffix_def path_name_def path_suffix_def)

lemma write_commands_default:
  "write_commands (CommandChannel_init ''cache.pkl'') xs fs =
     Inr ((fs(''cache.pkl'' \<mapsto> Pickled xs))(''cache.pkl.tmp'' := None))"
  by (simp add: write_commands_def write_atomic_def CommandChannel_init_def with_suffix_default
      os_replace_def fun_upd_twist)

text \<open>
  C1. The claim asks for one entry per new element, an "unrecognized" marker standing for
  every integer that is not a command. On the persisted sequence \<open>[1, 99, 2]\<close> and a
  fresh cursor the function returns two entries for three new elements: the entry for 99
  is left out, while the cursor does advance to the length of the sequence.
\<close>

theorem read_new_commands_drops_unrecognized:
  "read_new_commands (CommandChannel_init ''cache.pkl'') [''cache.pkl'' \<mapsto> Pickled [1, 99, 2]] =
     Inr ([CIRCLE_MOTION, TAKE_PHOTO], \<lparr>cache_path = ''cache.pkl'', read_index = 3\<rparr>)"
  by (simp add: read_new_commands_def open_and_load_def CommandChannel_init_def
      read_loop.simps from_snap_count_def)

text \<open>
  C3. Writing \<open>[1, 2, 1]\<close> with \<^verbatim>\<open>write_commands\<close> (into any file system) and reading
  with a fresh cursor yields \<open>[CIRCLE_MOTION, TAKE_PHOTO, CIRCLE_MOTION]\<close>; a second read
  right after it, with no write in between, yields the empty list.
\<close>

theorem channel_round_trip:
  "\<exists>fs1 reader1.
     write_commands (CommandChannel_init ''cache.pkl'') [1, 2, 1] fs = Inr fs1 \<and>
     read_new_commands (CommandChannel_init ''cache.pkl'') fs1 =
       Inr ([CIRCLE_MOTION, TAKE_PHOTO, CIRCLE_MOTION], reader1) \<and>
     read_new_commands reader1 fs1 = Inr ([], reader1)"
proof -
  let ?fs1 = "(fs(''cache.pkl'' \<mapsto> Pickled [1, 2, 1]))(''cache.pkl.tmp'' := None)"
  let ?r1 = "\<lparr>cache_path = ''cache.pkl'', read_index = 3\<rparr>"
  have w: "write_commands (CommandChannel_init ''cache.pkl'') [1, 2, 1] fs = Inr ?fs1"
    by (rule write_commands_default)
  have r1: "read_new_commands (CommandChannel_init ''cache.pkl'') ?fs1 =
      Inr ([CIRCLE_MOTION, TAKE_PHOTO, CIRCLE_MOTION], ?r1)"
    by (simp add: read_new_commands_def open_and_load_def CommandChannel_init_def
        read_loop.simps from_snap_count_def)
  have r2: "read_new_commands ?r1 ?fs1 = Inr ([], ?r1)"
    by (simp add: read_new_commands_def open_and_load_def read_loop.simps)
  from w r1 r2 show ?thesis by blast
qed

text \<open>
  C8. The claim asks that a read of a corrupt file returns the empty list and does not
  raise. The handlers cover \<^verbatim>\<open>FileNotFoundError\<close>, \<^verbatim>\<open>pickle.UnpicklingError\<close> and
  \<^verbatim>\<open>EOFError\<close> (lemma \<open>read_new_commands_caught\<close>). A file on which \<^verbatim>\<open>pickle.load\<close>
  raises another exception, such as the \<^verbatim>\<open>ValueError\<close> of a malformed integer
  argument, makes the read raise that exception.
\<close>

theorem read_new_commands_uncaught_exception:
  "read_new_commands (CommandChannel_init ''cache.pkl'') [''cache.pkl'' \<mapsto> Unloadable ValueError] =
     Inl ValueError"
  by (simp add: read_new_commands_def open_and_load_def CommandChannel_init_def)

section \<open>The snap detector: hysteresis and bursts\<close>

lemma detect_edges_disarmed:
  "\<not> valid d \<Longrightarrow> \<forall>x\<in>set ds. threshold d \<le> x \<Longrightarrow>
   True \<notin> set (fst (detect_edges d ds)) \<and> \<not> valid (snd (detect_edges d ds))"
proof (induction ds arbitrary: d)
  case Nil
  then show ?case by simp
next
  case (Cons x ds)
  from Cons.prems have e: "detect_edge d x = (False, d)"
    by (simp add: detect_edge_def)
  from Cons.prems have "\<forall>x\<in>set ds. threshold d \<le> x" by simp
  from Cons.IH [OF Cons.prems(1) this] e show ?case
    by (simp add: split_beta)
qed

lemma detect_edges_at_most_one:
  "\<forall>x\<in>set ds. threshold d \<le> x \<Longrightarrow> length (filter (\<lambda>b. b) (fst (detect_edges d ds))) \<le> 1"
proof (induction ds arbitrary: d)
  case Nil
  then show ?case by simp
next
  case (Cons x ds)
  from Cons.prems have rest: "\<forall>x\<in>set ds. threshold d \<le> x" by simp
  show ?case
  proof (cases "x > threshold d \<and> valid d")
    case True
    then have e: "detect_edge d x = (True, d\<lparr>valid := False\<rparr>)"
      by (simp add: detect_edge_def)
    have "True \<notin> set (fst (detect_edges (d\<lparr>valid := False\<rparr>) ds))"
      using detect_edges_disarmed [of "d\<lparr>valid := False\<rparr>" ds] rest by simp
    then have "filter (\<lambda>b. b) (fst (detect_edges (d\<lparr>valid := False\<rparr>) ds)) = []"
      by (auto simp: filter_empty_conv)
    with e show ?thesis by (simp add: split_beta)
  next
    case False
    with Cons.prems have e: "detect_edge d x = (False, d)"
      by (auto simp: detect_edge_def)
    from Cons.IH [OF rest] e show ?thesis by (simp add: split_beta)
  qed
qed

text \<open>
  C6. On readings whose differences never drop below the threshold the gate detects at
  most one edge, and a disarmed gate (as it is after a detection) detects nothing and
  stays disarmed; a reading strictly below the threshold is what arms it again.
\<close>

theorem hysteresis_at_most_one_edge:
  assumes "\<forall>x\<in>set ds. threshold d \<le> x"
  shows "length (filter (\<lambda>b. b) (fst (detect_edges d ds))) \<le> 1 \<and>
         (\<not> valid d \<longrightarrow>
            True \<notin> set (fst (detect_edges d ds)) \<and> \<not> valid (snd (detect_edges d ds))) \<and>
         (\<forall>x. x < threshold d \<longrightarrow> \<not> fst (detect_edge d x) \<and> valid (snd (detect_edge d x)))"
proof -
  have "\<not> fst (detect_edge d x) \<and> valid (snd (detect_edge d x))" if "x < threshold d" for x
    using that by (simp add: detect_edge_def)
  with assms detect_edges_at_most_one [of ds d] detect_edges_disarmed [of d ds]
  show ?thesis by blast
qed

theorem hysteresis_at_most_one_edge_witness:
  "length (filter (\<lambda>b. b)
     (fst (detect_edges (SnapDetector_init 50000 0.7) [60000, 70000, 50000, 90000]))) \<le> 1 \<and>
   fst (detect_edges (SnapDetector_init 50000 0.7) [60000, 70000, 50000, 90000]) =
     [True, False, False, False]"
proof -
  have h: "\<forall>x\<in>set [60000, 70000, 50000, 90000 :: int]. threshold (SnapDetector_init 50000 0.7) \<le> x"
    by (simp add: SnapDetector_init_def)
  have "fst (detect_edges (SnapDetector_init 50000 0.7) [60000, 70000, 50000, 90000]) =
     [True, False, False, False]"
    by (simp add: SnapDetector_init_def detect_edge_def)
  with hysteresis_at_most_one_edge [OF h] show ?thesis by blast
qed


lemma process_readings_append:
  "process_readings d (xs @ ys) =
     (fst (process_readings d xs) @ fst (process_readings (snd (process_readings d xs)) ys),
      snd (process_readings (snd (process_readings d xs)) ys))"
  by (induction xs arbitrary: d) (auto simp: split_beta)

lemma spike_step:
  "th < sensor2 - sensor1 \<Longrightarrow> 0 \<le> c \<Longrightarrow>
   process_reading \<lparr>threshold = th, time_window = w, valid = True, snap_count = c,
       prev_snap_time = p\<rparr> sensor1 sensor2 now =
     (None, \<lparr>threshold = th, time_window = w, valid = False, snap_count = c + 1,
        prev_snap_time = Some now\<rparr>)"
  by (simp add: process_reading_def detect_edge_def)

lemma quiet_step_hold:
  "sensor2 - sensor1 < th \<Longrightarrow> now - tp \<le> w \<Longrightarrow>
   process_reading \<lparr>threshold = th, time_window = w, valid = v, snap_count = c,
       prev_snap_time = Some tp\<rparr> sensor1 sensor2 now =
     (None, \<lparr>threshold = th, time_window = w, valid = True, snap_count = c,
        prev_snap_time = Some tp\<rparr>)"
  by (cases v) (simp_all add: process_reading_def detect_edge_def)

lemma quiet_step_emit:
  "sensor2 - sensor1 < th \<Longrightarrow> w < now - tp \<Longrightarrow> 0 < c \<Longrightarrow>
   process_reading \<lparr>threshold = th, time_window = w, valid = v, snap_count = c,
       prev_snap_time = Some tp\<rparr> sensor1 sensor2 now =
     (Some c, \<lparr>threshold = th, time_window = w, valid = True, snap_count = 0,
        prev_snap_time = None\<rparr>)"
  by (cases v) (simp_all add: process_reading_def detect_edge_def)

lemma quiet_step_idle:
  "sensor2 - sensor1 < th \<Longrightarrow>
   process_reading \<lparr>threshold = th, time_window = w, valid = v, snap_count = c,
       prev_snap_time = None\<rparr> sensor1 sensor2 now =
     (None, \<lparr>threshold = th, time_window = w, valid = True, snap_count = c,
        prev_snap_time = None\<rparr>)"
  by (cases v) (simp_all add: process_reading_def detect_edge_def)

lemma quiet_run_idle:
  "\<forall>r\<in>set qs. reading_diff r < th \<Longrightarrow>
   filter (\<lambda>out. out \<noteq> None)
     (fst (process_readings \<lparr>threshold = th, time_window = w, valid = v, snap_count = c,
        prev_snap_time = None\<rparr> qs)) = []"
proof (induction qs arbitrary: v)
  case Nil
  then show ?case by simp
next
  case (Cons r qs)
  obtain s1 s2 now where r: "r = (s1, s2, now)" by (cases r)
  from Cons.prems r have q: "s2 - s1 < th" by (simp add: reading_diff_def)
  from Cons.prems have "\<forall>r\<in>set qs. reading_diff r < th" by simp
  from Cons.IH [OF this, of True] show ?case
    by (simp add: r quiet_step_idle [OF q] split_beta)
qed

lemma quiet_run_hold:
  "\<forall>r\<in>set qs. reading_diff r < th \<and> reading_time r - tp \<le> w \<Longrightarrow> qs \<noteq> [] \<Longrightarrow>
   process_readings \<lparr>threshold = th, time_window = w, valid = v, snap_count = c,
        prev_snap_time = Some tp\<rparr> qs =
     (map (\<lambda>r. None) qs, \<lparr>threshold = th, time_window = w, valid = True, snap_count = c,
        prev_snap_time = Some tp\<rparr>)"
proof (induction qs arbitrary: v)
  case Nil
  then show ?case by simp
next
  case (Cons r qs)
  obtain s1 s2 now where r: "r = (s1, s2, now)" by (cases r)
  from Cons.prems r have q: "s2 - s1 < th" "now - tp \<le> w"
    by (simp_all add: reading_diff_def reading_time_def)
  show ?case
  proof (cases "qs = []")
    case True
    then show ?thesis by (simp add: r quiet_step_hold [OF q])
  next
    case False
    from Cons.prems have "\<forall>r\<in>set qs. reading_diff r < th \<and> reading_time r - tp \<le> w" by simp
    from Cons.IH [OF this False, of True] show ?thesis
      by (simp add: r quiet_step_hold [OF q])
  qed
qed

lemma quiet_run_emit:
  "\<forall>r\<in>set qs. reading_diff r < th \<Longrightarrow> qs \<noteq> [] \<Longrightarrow> sorted (map reading_time qs) \<Longrightarrow>
   w < reading_time (last qs) - tp \<Longrightarrow> 0 < c \<Longrightarrow>
   filter (\<lambda>out. out \<noteq> None)
     (fst (process_readings \<lparr>threshold = th, time_window = w, valid = v, snap_count = c,
        prev_snap_time = Some tp\<rparr> qs)) = [Some c]"
proof (induction qs arbitrary: v)
  case Nil
  then show ?case by simp
next
  case (Cons r qs)
  obtain s1 s2 now where r: "r = (s1, s2, now)" by (cases r)
  from Cons.prems r have q: "s2 - s1 < th" by (simp add: reading_diff_def)
  from Cons.prems have rest: "\<forall>r\<in>set qs. reading_diff r < th" by simp
  show ?case
  proof (cases "w < now - tp")
    case True
    from quiet_run_idle [OF rest, of w True 0] show ?thesis
      by (simp add: r quiet_step_emit [OF q True Cons.prems(5)] split_beta)
  next
    case False
    then have h: "now - tp \<le> w" by simp
    with Cons.prems(4) r have ne: "qs \<noteq> []"
      by (auto simp: reading_time_def)
    from Cons.prems ne have "sorted (map reading_time qs)" "w < reading_time (last qs) - tp"
      by simp_all
    from Cons.IH [OF rest ne this Cons.prems(5), of True] show ?thesis
      by (simp add: r quiet_step_hold [OF q h] split_beta)
  qed
qed


lemma burst_counts:
  "ps \<noteq> [] \<Longrightarrow>
   \<forall>(spike, quiet)\<in>set ps.
      th < reading_diff spike \<and> quiet \<noteq> [] \<and> (\<forall>q\<in>set quiet. reading_diff q < th) \<Longrightarrow>
   sorted (map reading_time (pulse_readings ps)) \<Longrightarrow>
   successively (\<lambda>t u. u - t < w) (map (\<lambda>p. reading_time (fst p)) ps) \<Longrightarrow>
   w < reading_time (last (snd (last ps))) - reading_time (fst (last ps)) \<Longrightarrow>
   0 \<le> c \<Longrightarrow>
   filter (\<lambda>out. out \<noteq> None)
     (fst (process_readings \<lparr>threshold = th, time_window = w, valid = True, snap_count = c,
        prev_snap_time = p\<rparr> (pulse_readings ps))) = [Some (c + int (length ps))]"
proof (induction ps arbitrary: c p)
  case Nil
  then show ?case by simp
next
  case (Cons pl ps)
  obtain s1 s2 now quiet where pl: "pl = ((s1, s2, now), quiet)" by (cases pl) auto
  from Cons.prems(2) pl have sp: "th < s2 - s1" and qne: "quiet \<noteq> []"
    and qq: "\<forall>q\<in>set quiet. reading_diff q < th"
    by (simp_all add: reading_diff_def)
  have c1: "0 < c + 1" using Cons.prems(6) by simp
  have rd: "pulse_readings (pl # ps) = (s1, s2, now) # quiet @ pulse_readings ps"
    by (simp add: pulse_readings_def pl)
  show ?case
  proof (cases "ps = []")
    case True
    have rd1: "pulse_readings [pl] = (s1, s2, now) # quiet"
      by (simp add: pulse_readings_def pl)
    from Cons.prems(3) have so: "sorted (map reading_time quiet)"
      by (simp add: True rd1)
    from Cons.prems(5) have "w < reading_time (last quiet) - now"
      by (simp add: True pl reading_time_def)
    from quiet_run_emit [OF qq qne so this c1, of False] show ?thesis
      by (simp add: True rd1 spike_step [OF sp Cons.prems(6)] split_beta)
  next
    case False
    then obtain pl2 ps2 where ps: "ps = pl2 # ps2" by (cases ps) auto
    obtain spike2 quiet2 where pl2: "pl2 = (spike2, quiet2)" by (cases pl2)
    have rd2: "pulse_readings ps = spike2 # quiet2 @ pulse_readings ps2"
      by (simp add: pulse_readings_def ps pl2)
    from Cons.prems(4) have gap: "reading_time spike2 - now < w"
      by (simp add: ps pl pl2 reading_time_def)
    from Cons.prems(3) have le: "\<forall>q\<in>set quiet. reading_time q \<le> reading_time spike2"
      by (simp add: rd rd2 sorted_append)
    have hold: "\<forall>r\<in>set quiet. reading_diff r < th \<and> reading_time r - now \<le> w"
    proof
      fix r assume r: "r \<in> set quiet"
      with le have "reading_time r \<le> reading_time spike2" by blast
      with gap have "reading_time r - now \<le> w" by simp
      with qq r show "reading_diff r < th \<and> reading_time r - now \<le> w" by blast
    qed
    have wf: "\<forall>(spike, quiet)\<in>set ps.
        th < reading_diff spike \<and> quiet \<noteq> [] \<and> (\<forall>q\<in>set quiet. reading_diff q < th)"
      using Cons.prems(2) by simp
    have so: "sorted (map reading_time (pulse_readings ps))"
      using Cons.prems(3) by (simp add: rd sorted_append)
    have su: "successively (\<lambda>t u. u - t < w) (map (\<lambda>p. reading_time (fst p)) ps)"
      using Cons.prems(4) by (simp add: ps)
    have fin: "w < reading_time (last (snd (last ps))) - reading_time (fst (last ps))"
      using Cons.prems(5) False by simp
    have c0: "0 \<le> c + 1" using Cons.prems(6) by simp
    from Cons.IH [OF False wf so su fin c0, of "Some now"] show ?thesis
      by (simp add: rd spike_step [OF sp Cons.prems(6)] process_readings_append
          quiet_run_hold [OF hold qne] split_beta add.assoc)
  qed
qed

text \<open>
  C5. A detector that is armed and has no burst open (a fresh one, or one whose last
  burst has been emitted) is fed \<open>N \<ge> 1\<close> pulses: every pulse is a spike above the
  threshold followed by at least one reading below it, all readings below the threshold
  except the spikes, the clock values in order, consecutive spikes less than the time
  window apart, and the last quiet reading more than the window after the last spike.
  Then exactly one call returns a count, the count is \<open>N\<close>, and every other call
  returns \<open>None\<close>.
\<close>

theorem burst_emits_count_once:
  assumes "ps \<noteq> []"
    and "valid d" and "snap_count d = 0"
    and "\<forall>(spike, quiet)\<in>set ps.
           threshold d < reading_diff spike \<and> quiet \<noteq> [] \<and>
           (\<forall>q\<in>set quiet. reading_diff q < threshold d)"
    and "sorted (map reading_time (pulse_readings ps))"
    and "successively (\<lambda>t u. u - t < time_window d) (map (\<lambda>p. reading_time (fst p)) ps)"
    and "time_window d < reading_time (last (snd (last ps))) - reading_time (fst (last ps))"
  shows "filter (\<lambda>out. out \<noteq> None) (fst (process_readings d (pulse_readings ps))) =
           [Some (int (length ps))]"
proof -
  obtain th w v c p where d: "d = \<lparr>threshold = th, time_window = w, valid = v, snap_count = c,
        prev_snap_time = p\<rparr>" by (cases d)
  from assms(2,3) d have vc: "v = True" "c = 0" by simp_all
  from burst_counts [of ps th w 0 p] assms(1,4-7) show ?thesis
    by (simp add: d vc)
qed

theorem burst_emits_count_once_witness:
  "filter (\<lambda>out. out \<noteq> None)
     (fst (process_readings (SnapDetector_init 50000 0.7)
        (pulse_readings
           [((0, 60000, 0), [(0, 10, 0.25)]),
            ((0, 70000, 0.5), [(0, 20, 0.75), (0, 30, 1), (0, 40, 1.5), (0, 0, 2)])]))) =
   [Some 2]"
proof -
  let ?ps = "[((0, 60000, 0), [(0, 10, 0.25)]),
              ((0, 70000, 0.5), [(0, 20, 0.75), (0, 30, 1), (0, 40, 1.5), (0, 0, 2)])] :: pulse list"
  have "filter (\<lambda>out. out \<noteq> None)
          (fst (process_readings (SnapDetector_init 50000 0.7) (pulse_readings ?ps))) =
        [Some (int (length ?ps))]"
    by (rule burst_emits_count_once)
      (simp_all add: SnapDetector_init_def pulse_readings_def reading_diff_def reading_time_def)
  then show ?thesis by simp
qed

section \<open>The PID controller: the accumulator\<close>

lemma update_integral:
  "integral (snd (update s e dt now)) =
     (case integral_limit s of
        Some l \<Rightarrow> max (- l) (min l (integral s + e * effective_dt s dt now))
      | None \<Rightarrow> integral s + e * effective_dt s dt now)"
  by (simp add: update_def Let_def split_beta)

lemma update_frame:
  "integral_limit (snd (update s e dt now)) = integral_limit s"
  "last_time (snd (update s e dt now)) = Some now"
  by (simp_all add: update_def Let_def split_beta)

lemma clamp_step_up:
  fixes i x :: real
  assumes "0 \<le> x" "agrees True L i"
  shows "agrees True L (case L of Some l \<Rightarrow> max (- l) (min l (i + x)) | None \<Rightarrow> i + x)"
    and "\<bar>i\<bar> \<le> \<bar>case L of Some l \<Rightarrow> max (- l) (min l (i + x)) | None \<Rightarrow> i + x\<bar>"
  using assms by (auto simp: agrees_def split: option.splits)

lemma clamp_step_down:
  fixes i x :: real
  assumes "x \<le> 0" "agrees False L i"
  shows "agrees False L (case L of Some l \<Rightarrow> max (- l) (min l (i + x)) | None \<Rightarrow> i + x)"
    and "\<bar>i\<bar> \<le> \<bar>case L of Some l \<Rightarrow> max (- l) (min l (i + x)) | None \<Rightarrow> i + x\<bar>"
  using assms by (auto simp: agrees_def split: option.splits)


lemma effective_dt_nonneg:
  "\<forall>d. dt = Some d \<longrightarrow> 0 \<le> d \<Longrightarrow> \<forall>t. last_time s = Some t \<longrightarrow> t \<le> now \<Longrightarrow>
   0 \<le> effective_dt s dt now"
  by (auto simp: effective_dt_def split: option.splits)

lemma update_agrees:
  assumes "if up then 0 \<le> e else e \<le> 0"
    and "\<forall>d. dt = Some d \<longrightarrow> 0 \<le> d" and "\<forall>t. last_time s = Some t \<longrightarrow> t \<le> now"
    and "agrees up (integral_limit s) (integral s)"
  shows "agrees up (integral_limit s) (integral (snd (update s e dt now)))"
    and "\<bar>integral s\<bar> \<le> \<bar>integral (snd (update s e dt now))\<bar>"
proof -
  have dt: "0 \<le> effective_dt s dt now"
    using assms(2,3) by (rule effective_dt_nonneg)
  show "agrees up (integral_limit s) (integral (snd (update s e dt now)))"
  proof (cases up)
    case True
    with assms(1) dt have "0 \<le> e * effective_dt s dt now" by simp
    from clamp_step_up(1) [OF this] assms(4) True show ?thesis
      by (simp add: update_integral)
  next
    case False
    with assms(1) dt have "e * effective_dt s dt now \<le> 0"
      by (simp add: mult_nonpos_nonneg)
    from clamp_step_down(1) [OF this] assms(4) False show ?thesis
      by (simp add: update_integral)
  qed
  show "\<bar>integral s\<bar> \<le> \<bar>integral (snd (update s e dt now))\<bar>"
  proof (cases up)
    case True
    with assms(1) dt have "0 \<le> e * effective_dt s dt now" by simp
    from clamp_step_up(2) [OF this] assms(4) True show ?thesis
      by (simp add: update_integral)
  next
    case False
    with assms(1) dt have "e * effective_dt s dt now \<le> 0"
      by (simp add: mult_nonpos_nonneg)
    from clamp_step_down(2) [OF this] assms(4) False show ?thesis
      by (simp add: update_integral)
  qed
qed

lemma updates_agree:
  "agrees up (integral_limit s) (integral s) \<Longrightarrow>
   \<forall>c\<in>set calls. if up then 0 \<le> call_error c else call_error c \<le> 0 \<Longrightarrow>
   \<forall>c\<in>set calls. \<forall>d. call_dt c = Some d \<longrightarrow> 0 \<le> d \<Longrightarrow>
   sorted (map call_now calls) \<Longrightarrow>
   \<forall>t. last_time s = Some t \<longrightarrow> (\<forall>c\<in>set calls. t \<le> call_now c) \<Longrightarrow>
   sorted (map abs (integral s # map integral (updates s calls))) \<and>
   (\<forall>x\<in>set (integral s # map integral (updates s calls)). agrees up (integral_limit s) x)"
proof (induction calls arbitrary: s)
  case Nil
  then show ?case by simp
next
  case (Cons c calls)
  let ?s1 = "snd (update s (call_error c) (call_dt c) (call_now c))"
  have e: "if up then 0 \<le> call_error c else call_error c \<le> 0"
    using Cons.prems(2) by simp
  have d: "\<forall>d. call_dt c = Some d \<longrightarrow> 0 \<le> d" using Cons.prems(3) by simp
  have t: "\<forall>t. last_time s = Some t \<longrightarrow> t \<le> call_now c" using Cons.prems(5) by simp
  note step = update_agrees [OF e d t Cons.prems(1)]
  have a1: "agrees up (integral_limit ?s1) (integral ?s1)"
    using step(1) by (simp add: update_frame)
  have r2: "\<forall>c\<in>set calls. if up then 0 \<le> call_error c else call_error c \<le> 0"
    using Cons.prems(2) by simp
  have r3: "\<forall>c\<in>set calls. \<forall>d. call_dt c = Some d \<longrightarrow> 0 \<le> d"
    using Cons.prems(3) by simp
  have r4: "sorted (map call_now calls)" using Cons.prems(4) by simp
  have r5: "\<forall>t. last_time ?s1 = Some t \<longrightarrow> (\<forall>c\<in>set calls. t \<le> call_now c)"
    using Cons.prems(4) by (simp add: update_frame)
  from Cons.IH [OF a1 r2 r3 r4 r5] step(2) Cons.prems(1) show ?case
    by (simp add: Let_def update_frame) (meson order_trans)
qed

text \<open>
  C7. A controller whose accumulator is zero and that has not been called (a new one,
  or one after \<^verbatim>\<open>reset\<close>) receives calls whose errors are all non-negative or all
  non-positive, each with a non-negative \<^verbatim>\<open>dt\<close> when \<^verbatim>\<open>dt\<close> is given and under a
  clock that does not go back when it is not. Then the absolute value of the
  accumulator never decreases from one call to the next; with a limit \<open>l\<close> configured it
  never exceeds \<open>\<bar>l\<bar>\<close>, and once it has reached \<open>\<bar>l\<bar>\<close> it stays there.
\<close>

theorem pid_integral_anti_windup:
  assumes "integral s = 0" and "last_time s = None"
    and "(\<forall>c\<in>set calls. 0 \<le> call_error c) \<or> (\<forall>c\<in>set calls. call_error c \<le> 0)"
    and "\<forall>c\<in>set calls. \<forall>d. call_dt c = Some d \<longrightarrow> 0 \<le> d"
    and "sorted (map call_now calls)"
  shows "let tr = integral s # map integral (updates s calls) in
           sorted (map abs tr) \<and>
           (\<forall>l. integral_limit s = Some l \<longrightarrow>
              (\<forall>x\<in>set tr. \<bar>x\<bar> \<le> \<bar>l\<bar>) \<and>
              (\<forall>i j. i \<le> j \<and> j < length tr \<and> \<bar>tr ! i\<bar> = \<bar>l\<bar> \<longrightarrow> \<bar>tr ! j\<bar> = \<bar>l\<bar>))"
proof -
  let ?tr = "integral s # map integral (updates s calls)"
  from assms(3) obtain up where
    sign: "\<forall>c\<in>set calls. if up then 0 \<le> call_error c else call_error c \<le> 0"
  proof (cases "\<forall>c\<in>set calls. 0 \<le> call_error c")
    case True
    then show ?thesis using that [of True] by simp
  next
    case False
    with assms(3) show ?thesis using that [of False] by simp
  qed
  have a0: "agrees up (integral_limit s) (integral s)"
    by (simp add: agrees_def assms(1) split: option.splits)
  have t0: "\<forall>t. last_time s = Some t \<longrightarrow> (\<forall>c\<in>set calls. t \<le> call_now c)"
    by (simp add: assms(2))
  from updates_agree [OF a0 sign assms(4,5) t0]
  have so: "sorted (map abs ?tr)" and ag: "\<forall>x\<in>set ?tr. agrees up (integral_limit s) x"
    by blast+
  have "(\<forall>x\<in>set ?tr. \<bar>x\<bar> \<le> \<bar>l\<bar>) \<and>
        (\<forall>i j. i \<le> j \<and> j < length ?tr \<and> \<bar>?tr ! i\<bar> = \<bar>l\<bar> \<longrightarrow> \<bar>?tr ! j\<bar> = \<bar>l\<bar>)"
    if l: "integral_limit s = Some l" for l
  proof (intro conjI allI impI)
    show b: "\<forall>x\<in>set ?tr. \<bar>x\<bar> \<le> \<bar>l\<bar>"
      using ag l by (auto simp: agrees_def)
    fix i j assume ij: "i \<le> j \<and> j < length ?tr \<and> \<bar>?tr ! i\<bar> = \<bar>l\<bar>"
    then have li: "i < length ?tr" "j < length ?tr" by auto
    from ij have "map abs ?tr ! i \<le> map abs ?tr ! j"
      using so by (intro sorted_nth_mono) simp_all
    then have "\<bar>?tr ! i\<bar> \<le> \<bar>?tr ! j\<bar>"
      unfolding nth_map [OF li(1)] nth_map [OF li(2)] .
    with ij have "\<bar>l\<bar> \<le> \<bar>?tr ! j\<bar>" by simp
    moreover from ij b have "\<bar>?tr ! j\<bar> \<le> \<bar>l\<bar>" by (meson nth_mem)
    ultimately show "\<bar>?tr ! j\<bar> = \<bar>l\<bar>" by simp
  qed
  with so show ?thesis by (simp only: Let_def) blast
qed

theorem pid_integral_anti_windup_witness:
  "map integral (updates (PIDController_init PIDConfig_default (- 100, 100) (Some 5))
       [(2, Some 1, 0), (2, None, 1), (2, Some 1, 3), (2, Some 1, 4)]) = [2, 4, 5, 5] \<and>
   (let tr = integral (PIDController_init PIDConfig_default (- 100, 100) (Some 5)) #
             map integral (updates (PIDController_init PIDConfig_default (- 100, 100) (Some 5))
               [(2, Some 1, 0), (2, None, 1), (2, Some 1, 3), (2, Some 1, 4)])
    in sorted (map abs tr) \<and>
       (\<forall>l. integral_limit (PIDController_init PIDConfig_default (- 100, 100) (Some 5)) = Some l \<longrightarrow>
          (\<forall>x\<in>set tr. \<bar>x\<bar> \<le> \<bar>l\<bar>) \<and>
          (\<forall>i j. i \<le> j \<and> j < length tr \<and> \<bar>tr ! i\<bar> = \<bar>l\<bar> \<longrightarrow> \<bar>tr ! j\<bar> = \<bar>l\<bar>)))"
proof -
  let ?s = "PIDController_init PIDConfig_default (- 100, 100) (Some 5)"
  let ?calls = "[(2, Some 1, 0), (2, None, 1), (2, Some 1, 3), (2, Some 1, 4)] :: pid_call list"
  have h1: "integral ?s = 0" and h2: "last_time ?s = None"
    by (simp_all add: PIDController_init_def)
  have h3: "(\<forall>c\<in>set ?calls. 0 \<le> call_error c) \<or> (\<forall>c\<in>set ?calls. call_error c \<le> 0)"
    by (simp add: call_error_def)
  have h4: "\<forall>c\<in>set ?calls. \<forall>d. call_dt c = Some d \<longrightarrow> 0 \<le> d"
    by (simp add: call_dt_def)
  have h5: "sorted (map call_now ?calls)"
    by (simp add: call_now_def)
  have tr: "map integral (updates ?s ?calls) = [2, 4, 5, 5]"
    by code_simp
  from tr pid_integral_anti_windup [OF h1 h2 h3 h4 h5] show ?thesis
    by (rule conjI)
qed

section \<open>The face tracker: history, loss and reset\<close>

lemma deque_append_frame: "maxlen (deque_append d x) = maxlen d"
  by (simp add: deque_append_def Let_def)

lemma deque_append_items:
  "items (deque_append d x) =
     (if length (items d) < maxlen d then items d @ [x] else tl (items d @ [x]))"
  by (simp add: deque_append_def Let_def)

lemma deque_append_length:
  "length (items d) \<le> maxlen d \<Longrightarrow> length (items (deque_append d x)) \<le> maxlen d"
  by (simp add: deque_append_items)

lemma handle_lost_face_state:
  "snd (handle_lost_face t) = t\<lparr>center_history := deque_append (center_history t) (0, 0)\<rparr>"
  by (simp add: handle_lost_face_def Let_def)

lemma handle_lost_face_output:
  "fst (handle_lost_face t) = (0, 0, 0, 0) \<or>
   fst (handle_lost_face t) =
     (0, 0, 0, if last_known_direction t = ''+'' then search_rotation_speed (tracker_config t)
               else - search_rotation_speed (tracker_config t))"
  by (simp add: handle_lost_face_def Let_def)

lemma compute_control_lost: "compute_control t None h ny nv = handle_lost_face t"
  by (simp add: compute_control_def)

lemma compute_control_history:
  "center_history (snd (compute_control t face h ny nv)) =
     deque_append (center_history t)
       (case face of None \<Rightarrow> (0, 0) | Some f \<Rightarrow> (center_x f, center_y f))"
  by (cases face) (simp_all add: compute_control_def handle_lost_face_state Let_def split_beta)

lemma compute_controls_maxlen:
  "maxlen (center_history (snd (compute_controls t inputs))) = maxlen (center_history t)"
proof (induction inputs arbitrary: t)
  case Nil
  then show ?case by simp
next
  case (Cons i inputs)
  obtain face h ny nv where i: "i = (face, h, ny, nv)" by (cases i)
  from Cons.IH [of "snd (compute_control t face h ny nv)"] show ?case
    by (simp add: i split_beta compute_control_history deque_append_frame)
qed

lemma compute_controls_length:
  "length (items (center_history t)) \<le> maxlen (center_history t) \<Longrightarrow>
   length (items (center_history (snd (compute_controls t inputs)))) \<le> maxlen (center_history t)"
proof (induction inputs arbitrary: t)
  case Nil
  then show ?case by simp
next
  case (Cons i inputs)
  obtain face h ny nv where i: "i = (face, h, ny, nv)" by (cases i)
  let ?t1 = "snd (compute_control t face h ny nv)"
  have m: "maxlen (center_history ?t1) = maxlen (center_history t)"
    by (simp add: compute_control_history deque_append_frame)
  have "length (items (center_history ?t1)) \<le> maxlen (center_history ?t1)"
    using Cons.prems by (simp add: compute_control_history deque_append_frame deque_append_length)
  from Cons.IH [OF this] show ?case
    by (simp add: i split_beta m)
qed

lemma FaceTracker_init_history:
  "FaceTracker_init cfg dc = Inr t0 \<Longrightarrow>
   items (center_history t0) = [] \<and> maxlen (center_history t0) = nat (frame_width dc) \<and>
   center_history_size t0 = 20 \<and> last_known_direction t0 = ''+'' \<and> tracker_config t0 = cfg"
  by (auto simp: FaceTracker_init_def deque_init_def split: if_splits)

text \<open>
  C2 (as amended). The history is a deque whose capacity is the frame width, not 20:
  on a tracker built by \<^verbatim>\<open>__init__\<close> its length never exceeds \<open>frame_width\<close>, whatever
  the calls. Every call appends one entry, the centre of the face or \<open>(0, 0)\<close>, and
  drops the oldest entry when that exceeds the capacity.
\<close>

theorem history_bounded_by_frame_width:
  assumes "FaceTracker_init cfg dc = Inr t0"
  shows "length (items (center_history (snd (compute_controls t0 inputs)))) \<le> nat (frame_width dc) \<and>
         (\<forall>t face h ny nv.
            items (center_history (snd (compute_control t face h ny nv))) =
              (let xs = items (center_history t) @
                          [case face of None \<Rightarrow> (0, 0) | Some f \<Rightarrow> (center_x f, center_y f)]
               in if length xs > maxlen (center_history t) then tl xs else xs))"
proof -
  from FaceTracker_init_history [OF assms]
  have "length (items (center_history t0)) \<le> maxlen (center_history t0)"
    and m: "maxlen (center_history t0) = nat (frame_width dc)" by simp_all
  from compute_controls_length [OF this(1)] m
  have "length (items (center_history (snd (compute_controls t0 inputs)))) \<le> nat (frame_width dc)"
    by simp
  then show ?thesis
    by (simp add: compute_control_history deque_append_def Let_def)
qed

theorem history_bounded_by_frame_width_witness:
  "FaceTracker_init TrackingConfig_default (DroneConfig_default\<lparr>frame_width := 2\<rparr>) =
     Inr (projr (FaceTracker_init TrackingConfig_default (DroneConfig_default\<lparr>frame_width := 2\<rparr>))) \<and>
   length (items (center_history (snd (compute_controls
     (projr (FaceTracker_init TrackingConfig_default (DroneConfig_default\<lparr>frame_width := 2\<rparr>)))
     [(None, 0, 0, 0), (None, 0, 0, 0), (None, 0, 0, 0)])))) \<le> 2"
proof -
  have h: "FaceTracker_init TrackingConfig_default (DroneConfig_default\<lparr>frame_width := 2\<rparr>) =
     Inr (projr (FaceTracker_init TrackingConfig_default (DroneConfig_default\<lparr>frame_width := 2\<rparr>)))"
    by (simp add: FaceTracker_init_def deque_init_def DroneConfig_default_def)
  from history_bounded_by_frame_width [OF h, of "[(None, 0, 0, 0), (None, 0, 0, 0), (None, 0, 0, 0)]"] h
  show ?thesis by (simp add: DroneConfig_default_def)
qed

lemma lost_frames_length:
  "\<forall>i\<in>set inputs. face_of i = None \<Longrightarrow>
   length (items (center_history t)) + length inputs \<le> maxlen (center_history t) \<Longrightarrow>
   length (items (center_history (snd (compute_controls t inputs)))) =
     length (items (center_history t)) + length inputs"
proof (induction inputs arbitrary: t)
  case Nil
  then show ?case by simp
next
  case (Cons i inputs)
  obtain face h ny nv where i: "i = (face, h, ny, nv)" by (cases i)
  let ?t1 = "snd (compute_control t face h ny nv)"
  from Cons.prems have l1: "length (items (center_history ?t1)) = Suc (length (items (center_history t)))"
    by (simp add: compute_control_history deque_append_items)
  have m: "maxlen (center_history ?t1) = maxlen (center_history t)"
    by (simp add: compute_control_history deque_append_frame)
  from Cons.prems have "\<forall>i\<in>set inputs. face_of i = None" by simp
  from Cons.IH [OF this, of ?t1] Cons.prems(2) l1 m show ?case
    by (simp add: i split_beta)
qed

text \<open>
  C2 (counterexample). With the default configuration, 21 calls without a face leave 21
  entries in the history.
\<close>

theorem history_exceeds_twenty:
  "\<not> length (items (center_history (snd (compute_controls
        (projr (FaceTracker_init TrackingConfig_default DroneConfig_default))
        (replicate 21 (None, 0, 0, 0)))))) \<le> 20"
proof -
  obtain t0 where t0: "FaceTracker_init TrackingConfig_default DroneConfig_default = Inr t0"
    by (simp add: FaceTracker_init_def deque_init_def DroneConfig_default_def)
  from FaceTracker_init_history [OF t0]
  have "items (center_history t0) = []" "maxlen (center_history t0) = 960"
    by (simp_all add: DroneConfig_default_def)
  with lost_frames_length [of "replicate 21 (None, 0, 0, 0)" t0] show ?thesis
    by (simp add: t0 face_of_def)
qed


lemma compute_controls_append:
  "compute_controls t (xs @ ys) =
     (fst (compute_controls t xs) @ fst (compute_controls (snd (compute_controls t xs)) ys),
      snd (compute_controls (snd (compute_controls t xs)) ys))"
  by (induction xs arbitrary: t) (auto simp: split_beta)

lemma lost_frames_frame:
  "\<forall>i\<in>set inputs. face_of i = None \<Longrightarrow>
   tracker_config (snd (compute_controls t inputs)) = tracker_config t \<and>
   last_known_direction (snd (compute_controls t inputs)) = last_known_direction t \<and>
   center_history_size (snd (compute_controls t inputs)) = center_history_size t"
proof (induction inputs arbitrary: t)
  case Nil
  then show ?case by simp
next
  case (Cons i inputs)
  obtain face h ny nv where i: "i = (face, h, ny, nv)" by (cases i)
  from Cons.prems i have f: "face = None" by (simp add: face_of_def)
  from Cons.prems have "\<forall>i\<in>set inputs. face_of i = None" by simp
  from Cons.IH [OF this, of "snd (handle_lost_face t)"] show ?case
    by (simp add: i f split_beta compute_control_lost handle_lost_face_state)
qed

lemma lost_frames_outputs:
  "\<forall>i\<in>set inputs. face_of i = None \<Longrightarrow>
   \<forall>out\<in>set (fst (compute_controls t inputs)).
     out = (0, 0, 0, 0) \<or>
     out = (0, 0, 0, if last_known_direction t = ''+'' then search_rotation_speed (tracker_config t)
                     else - search_rotation_speed (tracker_config t))"
proof (induction inputs arbitrary: t)
  case Nil
  then show ?case by simp
next
  case (Cons i inputs)
  obtain face h ny nv where i: "i = (face, h, ny, nv)" by (cases i)
  from Cons.prems i have f: "face = None" by (simp add: face_of_def)
  define srch where "srch =
    (0::int, 0::int, 0::int, if last_known_direction t = ''+'' then search_rotation_speed (tracker_config t)
                else - search_rotation_speed (tracker_config t))"
  let ?t1 = "snd (handle_lost_face t)"
  from Cons.prems have rest: "\<forall>i\<in>set inputs. face_of i = None" by simp
  have c1: "tracker_config ?t1 = tracker_config t" "last_known_direction ?t1 = last_known_direction t"
    by (simp_all add: handle_lost_face_state)
  from Cons.IH [OF rest, of ?t1]
  have ih: "\<forall>out\<in>set (fst (compute_controls ?t1 inputs)). out = (0, 0, 0, 0) \<or> out = srch"
    unfolding srch_def c1 .
  from handle_lost_face_output [of t]
  have hd: "fst (handle_lost_face t) = (0, 0, 0, 0) \<or> fst (handle_lost_face t) = srch"
    unfolding srch_def .
  have "fst (compute_controls t (i # inputs)) =
      fst (handle_lost_face t) # fst (compute_controls ?t1 inputs)"
    by (simp add: i f split_beta compute_control_lost)
  with ih hd have "\<forall>out\<in>set (fst (compute_controls t (i # inputs))). out = (0, 0, 0, 0) \<or> out = srch"
    by simp
  then show ?case unfolding srch_def .
qed

lemma lost_frames_trailing:
  "\<forall>i\<in>set inputs. face_of i = None \<Longrightarrow>
   items (center_history t) = pre @ replicate k (0, 0) \<Longrightarrow>
   k + length inputs \<le> maxlen (center_history t) \<Longrightarrow>
   \<exists>pre'. items (center_history (snd (compute_controls t inputs))) =
            pre' @ replicate (k + length inputs) (0, 0)"
proof (induction inputs arbitrary: t pre k)
  case Nil
  then show ?case by simp
next
  case (Cons i inputs)
  obtain face h ny nv where i: "i = (face, h, ny, nv)" by (cases i)
  from Cons.prems i have f: "face = None" by (simp add: face_of_def)
  let ?t1 = "snd (handle_lost_face t)"
  have m: "maxlen (center_history ?t1) = maxlen (center_history t)"
    by (simp add: handle_lost_face_state deque_append_frame)
  have "\<exists>pre1. items (center_history ?t1) = pre1 @ replicate (Suc k) (0, 0)"
  proof (cases "length (items (center_history t)) < maxlen (center_history t)")
    case True
    then have "items (center_history ?t1) = pre @ replicate (Suc k) (0, 0)"
      by (simp add: handle_lost_face_state deque_append_items Cons.prems(2) replicate_append_same)
    then show ?thesis by blast
  next
    case False
    with Cons.prems(2,3) have "pre \<noteq> []" by auto
    with False have "items (center_history ?t1) = tl pre @ replicate (Suc k) (0, 0)"
      by (simp add: handle_lost_face_state deque_append_items Cons.prems(2) replicate_append_same)
    then show ?thesis by blast
  qed
  then obtain pre1 where p1: "items (center_history ?t1) = pre1 @ replicate (Suc k) (0, 0)" ..
  from Cons.prems have r: "\<forall>i\<in>set inputs. face_of i = None" by simp
  from Cons.prems(3) m have "Suc k + length inputs \<le> maxlen (center_history ?t1)" by simp
  from Cons.IH [OF r p1 this] show ?case
    by (simp add: i f split_beta compute_control_lost)
qed

lemma handle_lost_face_search:
  assumes "items (center_history t) = pre @ replicate k (0, 0)"
    and "k < maxlen (center_history t)"
    and "lost_face_threshold (tracker_config t) \<le> int k"
    and "int k < center_history_size t"
  shows "fst (handle_lost_face t) =
           (0, 0, 0, if last_known_direction t = ''+'' then search_rotation_speed (tracker_config t)
                     else - search_rotation_speed (tracker_config t))"
proof -
  let ?xs = "items (deque_append (center_history t) (0, 0))"
  have "\<exists>pre1. ?xs = pre1 @ replicate (Suc k) (0, 0)"
  proof (cases "length (items (center_history t)) < maxlen (center_history t)")
    case True
    then have "?xs = pre @ replicate (Suc k) (0, 0)"
      by (simp add: deque_append_items assms(1) replicate_append_same)
    then show ?thesis by blast
  next
    case False
    with assms(1,2) have "pre \<noteq> []" by auto
    with False have "?xs = tl pre @ replicate (Suc k) (0, 0)"
      by (simp add: deque_append_items assms(1) replicate_append_same)
    then show ?thesis by blast
  qed
  then obtain pre1 where xs: "?xs = pre1 @ replicate (Suc k) (0, 0)" ..
  let ?m = "nat (int (length ?xs) - center_history_size t)"
  from assms(4) xs have mle: "?m \<le> length pre1" by simp
  from assms(4) have "slice_from ?xs (- center_history_size t) = drop ?m ?xs"
    by (simp add: slice_from_def)
  also from mle have "\<dots> = drop ?m pre1 @ replicate (Suc k) (0, 0)"
    by (simp add: xs)
  finally have "int (length (filter (\<lambda>(x, y). x = 0 \<and> y = 0) (slice_from ?xs (- center_history_size t))))
      \<ge> int (Suc k)"
    by simp
  with assms(3) show ?thesis
    by (simp add: handle_lost_face_def Let_def)
qed

lemma lost_frames_search:
  assumes "0 \<le> lost_face_threshold (tracker_config t)"
    and "lost_face_threshold (tracker_config t) < center_history_size t"
    and "lost_face_threshold (tracker_config t) < int (maxlen (center_history t))"
    and "length inputs = nat (lost_face_threshold (tracker_config t) + 1)"
    and "\<forall>i\<in>set inputs. face_of i = None"
  shows "last (fst (compute_controls t inputs)) =
           (0, 0, 0, if last_known_direction t = ''+'' then search_rotation_speed (tracker_config t)
                     else - search_rotation_speed (tracker_config t))"
proof -
  let ?k = "nat (lost_face_threshold (tracker_config t))"
  from assms(1,4) have ne: "inputs \<noteq> []" by auto
  then obtain i where sp: "inputs = butlast inputs @ [i]"
    by (metis append_butlast_last_id)
  obtain face h ny nv where i: "i = (face, h, ny, nv)" by (cases i)
  from assms(5) sp i have f: "face = None"
    by (metis face_of_def in_set_conv_decomp old.prod.case)
  from assms(5) have bl: "\<forall>i\<in>set (butlast inputs). face_of i = None"
    by (meson in_set_butlastD)
  from assms(1,4) have lb: "length (butlast inputs) = ?k" by simp
  let ?t1 = "snd (compute_controls t (butlast inputs))"
  from assms(1,3) lb have "0 + length (butlast inputs) \<le> maxlen (center_history t)" by simp
  from lost_frames_trailing [OF bl _ this, of "items (center_history t)"]
  have "\<exists>pre'. items (center_history ?t1) = pre' @ replicate (0 + length (butlast inputs)) (0, 0)"
    by simp
  then obtain pre' where tr: "items (center_history ?t1) = pre' @ replicate ?k (0, 0)"
    unfolding lb by auto
  note fr = lost_frames_frame [OF bl, of t]
  have m: "maxlen (center_history ?t1) = maxlen (center_history t)"
    by (rule compute_controls_maxlen)
  have "fst (handle_lost_face ?t1) =
           (0, 0, 0, if last_known_direction ?t1 = ''+'' then search_rotation_speed (tracker_config ?t1)
                     else - search_rotation_speed (tracker_config ?t1))"
    using assms(1-3) by (intro handle_lost_face_search [OF tr]) (simp_all add: m fr)
  then have out: "fst (handle_lost_face ?t1) =
           (0, 0, 0, if last_known_direction t = ''+'' then search_rotation_speed (tracker_config t)
                     else - search_rotation_speed (tracker_config t))"
    by (simp add: fr)
  have "fst (compute_controls t inputs) =
          fst (compute_controls t (butlast inputs)) @ [fst (handle_lost_face ?t1)]"
    by (subst sp) (simp add: compute_controls_append i f compute_control_lost split_beta)
  with out show ?thesis by simp
qed

text \<open>
  C4 (as amended). The tracker last saw the subject on the right, the threshold is not
  negative and lies below both the window of the count (\<open>center_history_size\<close>, 20) and
  the capacity of the history. Then the last of \<open>lost_face_threshold + 1\<close> consecutive
  calls without a face returns \<open>(0, 0, 0, search_rotation_speed)\<close>: no motion on the
  other axes, and a yaw that is nonzero when the configured speed is.
\<close>

theorem search_turns_right_after_threshold:
  assumes "last_known_direction t = ''+''"
    and "0 \<le> lost_face_threshold (tracker_config t)"
    and "lost_face_threshold (tracker_config t) < center_history_size t"
    and "lost_face_threshold (tracker_config t) < int (maxlen (center_history t))"
    and "length inputs = nat (lost_face_threshold (tracker_config t) + 1)"
    and "\<forall>i\<in>set inputs. face_of i = None"
  shows "last (fst (compute_controls t inputs)) =
           (0, 0, 0, search_rotation_speed (tracker_config t))"
  using lost_frames_search [OF assms(2-6)] assms(1) by simp

theorem search_turns_right_after_threshold_witness:
  "last (fst (compute_controls
       (projr (FaceTracker_init TrackingConfig_default DroneConfig_default))
       (replicate 16 (None, 0, 0, 0)))) = (0, 0, 0, 40)"
proof -
  let ?t = "projr (FaceTracker_init TrackingConfig_default DroneConfig_default)"
  have t: "FaceTracker_init TrackingConfig_default DroneConfig_default = Inr ?t"
    by (simp add: FaceTracker_init_def deque_init_def DroneConfig_default_def)
  note f = FaceTracker_init_history [OF t]
  have c: "lost_face_threshold TrackingConfig_default = 15"
    "search_rotation_speed TrackingConfig_default = 40"
    by (simp_all add: TrackingConfig_default_def)
  have w: "frame_width DroneConfig_default = 960"
    by (simp add: DroneConfig_default_def)
  have "last (fst (compute_controls ?t (replicate 16 (None, 0, 0, 0)))) =
           (0, 0, 0, search_rotation_speed (tracker_config ?t))"
    by (rule search_turns_right_after_threshold)
      (simp_all add: f c w face_of_def)
  then show ?thesis by (simp add: f c)
qed

lemma handle_lost_face_hold:
  assumes "0 < center_history_size t"
    and "center_history_size t \<le> lost_face_threshold (tracker_config t)"
  shows "fst (handle_lost_face t) = (0, 0, 0, 0)"
proof -
  let ?xs = "items (deque_append (center_history t) (0, 0))"
  have "length (slice_from ?xs (- center_history_size t)) \<le> nat (center_history_size t)"
    using assms(1) by (simp add: slice_from_def)
  moreover have "length (filter (\<lambda>(x, y). x = 0 \<and> y = 0) (slice_from ?xs (- center_history_size t)))
      \<le> length (slice_from ?xs (- center_history_size t))"
    by (rule length_filter_le)
  ultimately have "int (length (filter (\<lambda>(x, y). x = 0 \<and> y = 0)
      (slice_from ?xs (- center_history_size t)))) \<le> center_history_size t"
    using assms(1) by linarith
  with assms(2) show ?thesis
    by (simp add: handle_lost_face_def Let_def)
qed

lemma lost_frames_hold:
  "\<forall>i\<in>set inputs. face_of i = None \<Longrightarrow> 0 < center_history_size t \<Longrightarrow>
   center_history_size t \<le> lost_face_threshold (tracker_config t) \<Longrightarrow>
   \<forall>out\<in>set (fst (compute_controls t inputs)). out = (0, 0, 0, 0)"
proof (induction inputs arbitrary: t)
  case Nil
  then show ?case by simp
next
  case (Cons i inputs)
  obtain face h ny nv where i: "i = (face, h, ny, nv)" by (cases i)
  from Cons.prems i have f: "face = None" by (simp add: face_of_def)
  let ?t1 = "snd (handle_lost_face t)"
  from Cons.prems have rest: "\<forall>i\<in>set inputs. face_of i = None" by simp
  have c1: "0 < center_history_size ?t1"
    "center_history_size ?t1 \<le> lost_face_threshold (tracker_config ?t1)"
    using Cons.prems(2,3) by (simp_all add: handle_lost_face_state)
  from Cons.IH [OF rest c1] handle_lost_face_hold [OF Cons.prems(2,3)] show ?case
    by (simp add: i f split_beta compute_control_lost)
qed

text \<open>
  C4 (counterexample). With \<open>lost_face_threshold = 20\<close> and the rest of the default
  configuration, a new tracker (direction right) holds position at the 21st consecutive
  call without a face: the count over the last 20 entries cannot exceed 20.
\<close>

theorem search_not_reached_with_threshold_twenty:
  "last_known_direction
     (projr (FaceTracker_init (TrackingConfig_default\<lparr>lost_face_threshold := 20\<rparr>)
        DroneConfig_default)) = ''+'' \<and>
   last (fst (compute_controls
     (projr (FaceTracker_init (TrackingConfig_default\<lparr>lost_face_threshold := 20\<rparr>)
        DroneConfig_default))
     (replicate (nat (20 + 1)) (None, 0, 0, 0)))) = (0, 0, 0, 0)"
proof -
  let ?t = "projr (FaceTracker_init (TrackingConfig_default\<lparr>lost_face_threshold := 20\<rparr>)
        DroneConfig_default)"
  let ?inputs = "replicate (nat (20 + 1)) (None, 0, 0, 0) :: cycle_input list"
  have t: "FaceTracker_init (TrackingConfig_default\<lparr>lost_face_threshold := 20\<rparr>)
        DroneConfig_default = Inr ?t"
    by (simp add: FaceTracker_init_def deque_init_def DroneConfig_default_def)
  note f = FaceTracker_init_history [OF t]
  have all: "\<forall>out\<in>set (fst (compute_controls ?t ?inputs)). out = (0, 0, 0, 0)"
    by (rule lost_frames_hold) (simp_all add: f face_of_def)
  have "length (fst (compute_controls t' inputs')) = length inputs'" for t' inputs'
    by (induction inputs' arbitrary: t') (simp_all add: split_beta)
  then have "fst (compute_controls ?t ?inputs) \<noteq> []"
    by (metis length_0_conv length_replicate nat_numeral numeral_plus_one semiring_norm(5) zero_neq_numeral)
  then have "last (fst (compute_controls ?t ?inputs)) \<in> set (fst (compute_controls ?t ?inputs))"
    by (rule last_in_set)
  with all f show ?thesis by blast
qed

text \<open>
  C9. The result of \<^verbatim>\<open>compute_control\<close>, command and tracker state alike, does not
  depend on the height the drone reports. The override is the loop's: above
  \<open>height_limit\<close> it sends the descent \<open>(0, 0, -10, 0)\<close> in place of the tracker's
  command, and the tracker's command otherwise.
\<close>

theorem compute_control_ignores_height:
  "compute_control t face h1 now_yaw now_vertical = compute_control t face h2 now_yaw now_vertical \<and>
   (h > height_limit dc \<longrightarrow> main_send_control dc h control = (0, 0, - 10, 0)) \<and>
   (h \<le> height_limit dc \<longrightarrow> main_send_control dc h control = control)"
  by (simp add: compute_control_def main_send_control_def)

theorem compute_control_ignores_height_witness:
  "compute_control (projr (FaceTracker_init TrackingConfig_default DroneConfig_default))
      (Some \<lparr>center_x = 500, center_y = 200, area = 14500, bbox = (450, 150, 100, 100)\<rparr>) 100 0 0 =
   compute_control (projr (FaceTracker_init TrackingConfig_default DroneConfig_default))
      (Some \<lparr>center_x = 500, center_y = 200, area = 14500, bbox = (450, 150, 100, 100)\<rparr>) 300 0 0 \<and>
   (300 > height_limit DroneConfig_default \<and>
    main_send_control DroneConfig_default 300 (0, 0, - 2, 4) = (0, 0, - 10, 0)) \<and>
   (100 \<le> height_limit DroneConfig_default \<and>
    main_send_control DroneConfig_default 100 (0, 0, - 2, 4) = (0, 0, - 2, 4))"
proof -
  have h: "300 > height_limit DroneConfig_default" "100 \<le> height_limit DroneConfig_default"
    by (simp_all add: DroneConfig_default_def)
  from compute_control_ignores_height [where
      t = "projr (FaceTracker_init TrackingConfig_default DroneConfig_default)" and
      face = "Some \<lparr>center_x = 500, center_y = 200, area = 14500, bbox = (450, 150, 100, 100)\<rparr>" and
      ?h1.0 = 100 and now_yaw = 0 and now_vertical = 0 and ?h2.0 = 300 and h = 300 and
      dc = DroneConfig_default and control = "(0, 0, - 2, 4)"]
    compute_control_ignores_height [where
      t = "projr (FaceTracker_init TrackingConfig_default DroneConfig_default)" and
      face = "Some \<lparr>center_x = 500, center_y = 200, area = 14500, bbox = (450, 150, 100, 100)\<rparr>" and
      ?h1.0 = 100 and now_yaw = 0 and now_vertical = 0 and ?h2.0 = 300 and h = 100 and
      dc = DroneConfig_default and control = "(0, 0, - 2, 4)"] h
  show ?thesis by blast
qed

text \<open>
  C10. \<^verbatim>\<open>reset\<close> resets both PID controllers and empties the history, and leaves the
  stored direction as it was. So in calls without a face after a reset, every command
  is either the hold \<open>(0, 0, 0, 0)\<close> or the search rotation signed by the direction
  stored before the reset.
\<close>

theorem reset_keeps_direction:
  "last_known_direction (reset t) = last_known_direction t \<and>
   yaw_pid (reset t) = PID_reset (yaw_pid t) \<and>
   vertical_pid (reset t) = PID_reset (vertical_pid t) \<and>
   items (center_history (reset t)) = [] \<and>
   ((\<forall>i\<in>set inputs. face_of i = None) \<longrightarrow>
    (\<forall>out\<in>set (fst (compute_controls (reset t) inputs)).
       out = (0, 0, 0, 0) \<or>
       out = (0, 0, 0, if last_known_direction t = ''+''
                       then search_rotation_speed (tracker_config t)
                       else - search_rotation_speed (tracker_config t))))"
proof -
  have fr: "last_known_direction (reset t) = last_known_direction t"
    "tracker_config (reset t) = tracker_config t"
    by (simp_all add: reset_def)
  have "\<forall>out\<in>set (fst (compute_controls (reset t) inputs)).
       out = (0, 0, 0, 0) \<or>
       out = (0, 0, 0, if last_known_direction t = ''+''
                       then search_rotation_speed (tracker_config t)
                       else - search_rotation_speed (tracker_config t))"
    if "\<forall>i\<in>set inputs. face_of i = None"
    using lost_frames_outputs [OF that, of "reset t"] unfolding fr .
  then show ?thesis
    by (simp add: reset_def deque_clear_def)
qed

theorem reset_keeps_direction_witness:
  "map face_of (replicate 16 (None, 0, 0, 0)) = replicate 16 None \<and>
   last_known_direction (reset (snd (compute_control
      (projr (FaceTracker_init TrackingConfig_default DroneConfig_default))
      (Some \<lparr>center_x = 100, center_y = 200, area = 14500, bbox = (50, 150, 100, 100)\<rparr>)
      100 0 0))) = ''-'' \<and>
   set (fst (compute_controls (reset (snd (compute_control
        (projr (FaceTracker_init TrackingConfig_default DroneConfig_default))
        (Some \<lparr>center_x = 100, center_y = 200, area = 14500, bbox = (50, 150, 100, 100)\<rparr>)
        100 0 0))) (replicate 16 (None, 0, 0, 0))))
     \<subseteq> {(0, 0, 0, 0), (0, 0, 0, - 40)}"
proof -
  let ?t = "snd (compute_control
      (projr (FaceTracker_init TrackingConfig_default DroneConfig_default))
      (Some \<lparr>center_x = 100, center_y = 200, area = 14500, bbox = (50, 150, 100, 100)\<rparr>)
      100 0 0)"
  have h: "\<forall>i\<in>set (replicate 16 (None, 0, 0, 0) :: cycle_input list). face_of i = None"
    by (simp add: face_of_def)
  have m: "map face_of (replicate 16 (None, 0, 0, 0)) = replicate 16 None"
    by (simp add: face_of_def)
  have d: "last_known_direction ?t = ''-''"
    by code_simp
  have c: "search_rotation_speed (tracker_config ?t) = 40"
    by code_simp
  from reset_keeps_direction [of ?t "replicate 16 (None, 0, 0, 0)"] h
  have "last_known_direction (reset ?t) = ''-'' \<and>
    (\<forall>out\<in>set (fst (compute_controls (reset ?t) (replicate 16 (None, 0, 0, 0)))).
       out = (0, 0, 0, 0) \<or> out = (0, 0, 0, - 40))"
    by (simp add: d c)
  with m show ?thesis by blast
qed

end
